theory Spec2Isabelle
  imports Main
begin

section \<open>Roman numeral parser: embedding of rome.c\<close>

subsection \<open>C strings\<close>

text \<open>
  A \<open>const char*\<close> argument is modelled by the list of characters stored at the
  pointer; the byte after the last list element is the terminating NUL. Reading
  \<open>str[i]\<close> is \<open>char_at str i\<close>, and \<open>str += n\<close> is \<open>drop n str\<close>.
\<close>

definition NUL :: char where
  "NUL = CHR 0x00"

definition NL :: char where
  "NL = CHR 0x0A"

definition char_at :: "string \<Rightarrow> nat \<Rightarrow> char" where
  "char_at str i = (if i < length str then str ! i else NUL)"

subsection \<open>Machine integers\<close>

text \<open>
  The C type \<open>int\<close> has 32 bits. Every addition, subtraction and multiplication of
  the program on \<open>int\<close>, and the cast \<open>(int)\<close> of a pointer difference, is followed by
  \<open>int32\<close>: the two's complement value with the same low 32 bits. This is what the
  compiled program computes (ISO C leaves signed overflow undefined). Constants and
  comparisons need no wrapping. Pointer differences themselves are not bounded.
\<close>

definition int32 :: "int \<Rightarrow> int" where
  "int32 x = (x + 2147483648) mod 4294967296 - 2147483648"

subsection \<open>Tokens and results\<close>

text \<open>
  \<open>struct token\<close> is a tag with a union of two pairs of \<open>int\<close> fields:
  \<open>PAIR prefix suffix\<close> and \<open>REPEAT digit count\<close>. The fields hold values of the
  C type \<open>int\<close>.
\<close>

datatype token = PAIR int int | REPEAT int int

text \<open>
  \<open>struct result\<close> is a value or an error message. The messages built by \<open>errorf\<close>
  are modelled by one constructor per format string, carrying the format arguments:
  \<^item> \<open>EmptyInput\<close>: "input is empty"
  \<^item> \<open>EndOfInput\<close>: "EOF"
  \<^item> \<open>InvalidCharacter c\<close>: "invalid character: %c"
  \<^item> \<open>InvalidPair a b\<close>: "invalid pair: %c%c"
  \<^item> \<open>InvalidRepeatCount c n\<close>: "character %c cannot appear %d times in a row"
  \<^item> \<open>InvalidSequence b1 b2\<close>: " %s cannot be followed by %s", the arguments being the
    buffers written by \<open>sprint_token\<close> (\<open>None\<close> when \<open>sprint_token\<close> returned false
    and left the buffer unwritten)
  \<^item> \<open>AssertionFailed\<close>: the \<open>assert\<close> of the parse loop aborted the program
  \<^item> \<open>PointerOutOfString\<close>: \<open>str += res.value\<close> with a negative value moved the
    pointer before the start of the string (undefined behaviour in C, an outcome of
    its own here).
\<close>

datatype error =
    EmptyInput
  | EndOfInput
  | InvalidCharacter char
  | InvalidPair char char
  | InvalidRepeatCount char int
  | InvalidSequence "string option" "string option"
  | AssertionFailed
  | PointerOutOfString

type_synonym 'a result = "error + 'a"

subsection \<open>Helpers\<close>

definition token_value :: "token \<Rightarrow> int" where
  "token_value t = (case t of REPEAT d c \<Rightarrow> int32 (d * c) | PAIR p s \<Rightarrow> int32 (s - p))"

definition digit_to_roman :: "int \<Rightarrow> char" where
  "digit_to_roman d =
     (if d = 1 then CHR ''I''
      else if d = 5 then CHR ''V''
      else if d = 10 then CHR ''X''
      else if d = 50 then CHR ''L''
      else if d = 100 then CHR ''C''
      else if d = 500 then CHR ''D''
      else if d = 1000 then CHR ''M''
      else CHR ''?'')"

definition sprint_token :: "int \<Rightarrow> token \<Rightarrow> string option" where
  "sprint_token len t =
     (case t of
        REPEAT d c \<Rightarrow>
          if len < int32 (c + 1) then None
          else Some (replicate (nat c) (digit_to_roman d))
      | PAIR p s \<Rightarrow>
          if len < 3 then None
          else Some [digit_to_roman p, digit_to_roman s])"

definition valid_sequence :: "token \<Rightarrow> token \<Rightarrow> bool" where
  "valid_sequence first second =
     (let first_prefix = (case first of PAIR p s \<Rightarrow> p | REPEAT d c \<Rightarrow> d) in
      if first_prefix = 5 \<or> first_prefix = 50 \<or> first_prefix = 500 then
        (let second_suffix = (case second of PAIR p s \<Rightarrow> s | REPEAT d c \<Rightarrow> d) in
         first_prefix > second_suffix)
      else
        (let second_prefix = (case second of PAIR p s \<Rightarrow> p | REPEAT d c \<Rightarrow> d) in
         first_prefix > second_prefix))"

definition valid_pair :: "int \<Rightarrow> int \<Rightarrow> bool" where
  "valid_pair prefix suffix =
     (if suffix = 5 \<or> suffix = 10 then prefix = 1
      else if suffix = 50 \<or> suffix = 100 then prefix = 10
      else if suffix = 500 \<or> suffix = 1000 then prefix = 100
      else False)"

definition valid_repeats :: "int \<Rightarrow> int \<Rightarrow> bool" where
  "valid_repeats main count =
     (if count = 0 then False
      else if main = 5 \<or> main = 50 \<or> main = 500 then count = 1
      else if main = 1 \<or> main = 10 \<or> main = 100 then count < 4
      else if main = 1000 then True
      else False)"

text \<open>
  \<open>parse_roman_character\<close> returns false and leaves \<open>*out\<close> alone (\<open>None\<close>), or
  returns true with the digit written to \<open>*out\<close>.
\<close>

definition parse_roman_character :: "char \<Rightarrow> int option" where
  "parse_roman_character c =
     (if c = CHR ''I'' then Some 1
      else if c = CHR ''V'' then Some 5
      else if c = CHR ''X'' then Some 10
      else if c = CHR ''L'' then Some 50
      else if c = CHR ''C'' then Some 100
      else if c = CHR ''D'' then Some 500
      else if c = CHR ''M'' then Some 1000
      else None)"

subsection \<open>Tokenizer\<close>

text \<open>
  The scan of a repetition, \<open>for (it = str+2; *str == *it; ++it)\<close>: \<open>c\<close> is \<open>*str\<close>,
  the list is the text at \<open>it\<close> and \<open>n\<close> is the pointer difference \<open>it - str\<close>,
  which the scan returns; the caller casts it to \<open>int\<close>. At the end of the list
  \<open>*it\<close> is the terminating NUL, which differs from \<open>*str\<close> (a roman letter at the
  only call site), so the scan stops there.
\<close>

fun scan_repeat :: "char \<Rightarrow> string \<Rightarrow> int \<Rightarrow> int result" where
  "scan_repeat c [] n = Inr n"
| "scan_repeat c (x # xs) n =
     (if c = x then
        (case parse_roman_character c of
           None \<Rightarrow> Inl (InvalidCharacter c)
         | Some second \<Rightarrow> scan_repeat c xs (n + 1))
      else Inr n)"

text \<open>
  \<open>consume_next_token\<close> returns the count of characters consumed and, through its
  pointer argument, the token: the model returns both.
\<close>

definition consume_next_token :: "string \<Rightarrow> (int \<times> token) result" where
  "consume_next_token str =
     (if char_at str 0 = NUL \<or> char_at str 0 = NL then Inl EndOfInput
      else
        (case parse_roman_character (char_at str 0) of
           None \<Rightarrow> Inl (InvalidCharacter (char_at str 0))
         | Some first \<Rightarrow>
             if char_at str 1 = NUL \<or> char_at str 1 = NL then Inr (1, REPEAT first 1)
             else
               (case parse_roman_character (char_at str 1) of
                  None \<Rightarrow> Inl (InvalidCharacter (char_at str 0))
                | Some second \<Rightarrow>
                    if first < second then
                      (if \<not> valid_pair first second
                       then Inl (InvalidPair (char_at str 0) (char_at str 1))
                       else Inr (2, PAIR first second))
                    else if first > second then Inr (1, REPEAT first 1)
                    else
                      (case scan_repeat (char_at str 0) (drop 2 str) 2 of
                         Inl e \<Rightarrow> Inl e
                       | Inr diff \<Rightarrow>
                           (let num_repeats = int32 diff in
                            if \<not> valid_repeats first num_repeats
                            then Inl (InvalidRepeatCount (char_at str 0) num_repeats)
                            else Inr (num_repeats, REPEAT first num_repeats))))))"

subsection \<open>Entry point\<close>

text \<open>
  The \<open>while\<close> loop of \<open>parse_roman_number\<close>, with its state \<open>str\<close>, \<open>prev\<close> and
  \<open>tally\<close>. Nothing in the loop itself bounds the number of iterations, so it is a
  partial function: \<open>None\<close> is a loop that never returns. After the assertion
  \<open>res.value\<close> is positive, and \<open>str += res.value\<close> stays inside the string.
\<close>

partial_function (option) parse_loop :: "string \<Rightarrow> token \<Rightarrow> int \<Rightarrow> int result option" where
  "parse_loop str prev tally =
     (if char_at str 0 \<noteq> NL \<and> char_at str 0 \<noteq> NUL then
        (case consume_next_token str of
           Inl e \<Rightarrow> Some (Inl e)
         | Inr res \<Rightarrow>
             if \<not> fst res > 0 then Some (Inl AssertionFailed)
             else if \<not> valid_sequence prev (snd res) then
               Some (Inl (InvalidSequence (sprint_token 32 prev) (sprint_token 32 (snd res))))
             else
               parse_loop (drop (nat (fst res)) str) (snd res)
                 (int32 (tally + token_value (snd res))))
      else Some (Inr tally))"

text \<open>
  The block of the first token has no assertion: a negative \<open>res.value\<close> takes
  \<open>str\<close> out of the string there.
\<close>

definition parse_roman_number :: "string \<Rightarrow> int result option" where
  "parse_roman_number str =
     (if char_at str 0 = NUL then Some (Inl EmptyInput)
      else
        (case consume_next_token str of
           Inl e \<Rightarrow> Some (Inl e)
         | Inr res \<Rightarrow>
             if fst res < 0 then Some (Inl PointerOutOfString)
             else
               parse_loop (drop (nat (fst res)) str) (snd res)
                 (int32 (0 + token_value (snd res)))))"

declare parse_loop.simps [code]

subsection \<open>Notions of the specification\<close>

text \<open>
  The text before the first line terminator or end of string: the part of the input
  the parser is meant to read.
\<close>

definition line :: "string \<Rightarrow> string" where
  "line str = takeWhile (\<lambda>c. c \<noteq> NL \<and> c \<noteq> NUL) str"

text \<open>
  The prefix and suffix digit of a token as the sequence rule of the specification
  names them: those of a Pair, or the digit of a Repeat for both.
\<close>

definition prefix_digit :: "token \<Rightarrow> int" where
  "prefix_digit t = (case t of PAIR p s \<Rightarrow> p | REPEAT d c \<Rightarrow> d)"

definition suffix_digit :: "token \<Rightarrow> int" where
  "suffix_digit t = (case t of PAIR p s \<Rightarrow> s | REPEAT d c \<Rightarrow> d)"

text \<open>The legal-pairs table of the specification, as (prefix, suffix) entries.\<close>

definition legal_pairs :: "(int \<times> int) list" where
  "legal_pairs = [(1, 5), (1, 10), (10, 50), (10, 100), (100, 500), (100, 1000)]"

text \<open>
  The input up to and including its first line terminator, or the whole input when
  it has none.
\<close>

definition through_newline :: "string \<Rightarrow> string" where
  "through_newline str =
     takeWhile (\<lambda>c. c \<noteq> NL) str @ take 1 (dropWhile (\<lambda>c. c \<noteq> NL) str)"

text \<open>
  The legal-repeats table of the specification: V, L and D only once; I, X and C one
  to three times; M any positive number of times.
\<close>

definition legal_repeats :: "int \<Rightarrow> nat \<Rightarrow> bool" where
  "legal_repeats d n \<longleftrightarrow>
     (d \<in> {5, 50, 500} \<and> n = 1) \<or>
     (d \<in> {1, 10, 100} \<and> 1 \<le> n \<and> n \<le> 3) \<or>
     (d = 1000 \<and> 1 \<le> n)"

text \<open>
  A text that cannot extend or change a token ending in a digit of value \<open>q\<close>: it
  is empty, or starts with a terminator or with a roman digit of smaller value.
\<close>

fun starts_below :: "int \<Rightarrow> string \<Rightarrow> bool" where
  "starts_below q [] = True"
| "starts_below q (c # s) =
     (c = NUL \<or> c = NL \<or>
      (case parse_roman_character c of None \<Rightarrow> False | Some v \<Rightarrow> v < q))"

text \<open>
  The canonical rendering of a number, which the repository does not contain: the
  standard place-value rendering, one group of letters per decimal digit, and one M
  per thousand. \<open>digit_numeral one five ten d\<close> renders the decimal digit \<open>d\<close>
  with the letters of its place.
\<close>

definition digit_numeral :: "char \<Rightarrow> char \<Rightarrow> char \<Rightarrow> nat \<Rightarrow> string" where
  "digit_numeral one five ten d =
     [[], [one], [one, one], [one, one, one], [one, five], [five], [five, one],
      [five, one, one], [five, one, one, one], [one, ten]] ! d"

definition canonical_roman :: "nat \<Rightarrow> string" where
  "canonical_roman v =
     replicate (v div 1000) CHR ''M'' @
     digit_numeral CHR ''C'' CHR ''D'' CHR ''M'' (v div 100 mod 10) @
     digit_numeral CHR ''X'' CHR ''L'' CHR ''C'' (v div 10 mod 10) @
     digit_numeral CHR ''I'' CHR ''V'' CHR ''X'' (v mod 10)"

section \<open>Properties of the embedding\<close>

subsection \<open>Wrap-around\<close>

lemma int32_small: "- 2147483648 \<le> x \<Longrightarrow> x < 2147483648 \<Longrightarrow> int32 x = x"
  by (simp add: int32_def)

lemma int32_le: "0 \<le> x \<Longrightarrow> int32 x \<le> x"
proof -
  assume "0 \<le> x"
  then have "(x + 2147483648) mod 4294967296 \<le> x + 2147483648"
    by (intro zmod_le_nonneg_dividend) simp
  then show ?thesis by (simp add: int32_def)
qed

lemma int32_add_left: "int32 (int32 x + y) = int32 (x + y)"
proof -
  have A: "int32 x + y + 2147483648 = (x + 2147483648) mod 4294967296 + y"
    by (simp add: int32_def)
  have "(int32 x + y + 2147483648) mod 4294967296 =
          ((x + 2147483648) mod 4294967296 + y) mod 4294967296"
    by (simp only: A)
  also have "\<dots> = (x + 2147483648 + y) mod 4294967296"
    by (rule mod_add_left_eq)
  also have "x + 2147483648 + y = x + y + 2147483648" by simp
  finally show ?thesis
    unfolding int32_def [of "int32 x + y"] int32_def [of "x + y"] by simp
qed

lemma int32_add_right: "int32 (x + int32 y) = int32 (x + y)"
  using int32_add_left [of y x] by (simp add: add.commute)

lemma int32_numerals:
  "int32 2147483648 = - 2147483648" "int32 4294967296 = 0"
  "int32 2147484000 = - 2147483296"
  by (simp_all add: int32_def)

subsection \<open>Reading characters\<close>

lemma char_at_Nil [simp]: "char_at [] i = NUL"
  by (simp add: char_at_def)

lemma char_at_Cons_0 [simp]: "char_at (c # s) 0 = c"
  by (simp add: char_at_def)

lemma char_at_Cons_Suc [simp]: "char_at (c # s) (Suc i) = char_at s i"
  by (simp add: char_at_def)

lemma char_at_0_end: "char_at s 0 \<noteq> NUL \<Longrightarrow> \<exists>c s'. s = c # s'"
  by (cases s) simp_all

lemma roman_values:
  "parse_roman_character c = Some d \<Longrightarrow> d \<in> {1, 5, 10, 50, 100, 500, 1000}"
  by (auto simp: parse_roman_character_def split: if_splits)

lemma roman_not_end:
  "parse_roman_character c = Some d \<Longrightarrow> c \<noteq> NUL \<and> c \<noteq> NL"
  by (auto simp: parse_roman_character_def NUL_def NL_def split: if_splits)

lemma roman_inj:
  "parse_roman_character c = Some d \<Longrightarrow> parse_roman_character c' = Some d \<Longrightarrow> c = c'"
  by (auto simp: parse_roman_character_def split: if_splits)


subsection \<open>The tokenizer by the shape of its input\<close>

lemma scan_repeat_roman:
  "parse_roman_character c = Some d \<Longrightarrow>
   scan_repeat c xs n = Inr (n + int (length (takeWhile (\<lambda>x. x = c) xs)))"
  by (induction xs arbitrary: n) auto

lemma consume_Nil: "consume_next_token [] = Inl EndOfInput"
  by (simp add: consume_next_token_def)

lemma consume_Cons:
  "consume_next_token (c # s) =
     (if c = NUL \<or> c = NL then Inl EndOfInput
      else
        (case parse_roman_character c of
           None \<Rightarrow> Inl (InvalidCharacter c)
         | Some first \<Rightarrow>
             if char_at s 0 = NUL \<or> char_at s 0 = NL then Inr (1, REPEAT first 1)
             else
               (case parse_roman_character (char_at s 0) of
                  None \<Rightarrow> Inl (InvalidCharacter c)
                | Some second \<Rightarrow>
                    if first < second then
                      (if \<not> valid_pair first second
                       then Inl (InvalidPair c (char_at s 0))
                       else Inr (2, PAIR first second))
                    else if first > second then Inr (1, REPEAT first 1)
                    else
                      (let num_repeats =
                             int32 (2 + int (length (takeWhile (\<lambda>x. x = c) (tl s)))) in
                       if \<not> valid_repeats first num_repeats
                       then Inl (InvalidRepeatCount c num_repeats)
                       else Inr (num_repeats, REPEAT first num_repeats)))))"
proof (cases s)
  case Nil
  then show ?thesis by (simp add: consume_next_token_def split: option.split)
next
  case (Cons c1 s')
  then show ?thesis
    by (simp add: consume_next_token_def scan_repeat_roman Let_def split: option.split)
qed

lemma consume_no_assert:
  "consume_next_token str \<noteq> Inl AssertionFailed \<and>
   consume_next_token str \<noteq> Inl PointerOutOfString"
proof (cases "parse_roman_character (char_at str 0)")
  case None
  then show ?thesis by (simp add: consume_next_token_def)
next
  case (Some d)
  then show ?thesis
    by (simp add: consume_next_token_def scan_repeat_roman Let_def split: option.split)
qed

subsection \<open>What a token consumes\<close>

lemma line_Nil [simp]: "line [] = []"
  by (simp add: line_def)

lemma line_Cons:
  "line (c # s) = (if c = NL \<or> c = NUL then [] else c # line s)"
  by (simp add: line_def)

lemma line_empty_iff: "line str = [] \<longleftrightarrow> char_at str 0 = NL \<or> char_at str 0 = NUL"
  by (cases str) (auto simp: line_Cons)

lemma line_drop:
  "n \<le> length (line str) \<Longrightarrow> line (drop n str) = drop n (line str)"
proof (induction str arbitrary: n)
  case Nil
  then show ?case by simp
next
  case (Cons c s)
  then show ?case by (cases n) (auto simp: line_Cons)
qed


lemma run_le_line:
  "c \<noteq> NL \<Longrightarrow> c \<noteq> NUL \<Longrightarrow> length (takeWhile (\<lambda>x. x = c) xs) \<le> length (line xs)"
  by (induction xs) (simp_all add: line_Cons)

text \<open>
  A token that the tokenizer accepts spans \<open>m\<close> characters of the line, all of them
  roman letters, and the count returned is \<open>m\<close> cast to \<open>int\<close>.
\<close>

lemma consume_span:
  assumes "consume_next_token str = Inr (n, t)"
  shows "\<exists>m. 0 < m \<and> m \<le> length (line str) \<and> n = int32 (int m) \<and>
             (\<forall>c\<in>set (take m str). parse_roman_character c \<noteq> None)"
proof (cases str)
  case Nil
  with assms show ?thesis by (simp add: consume_Nil)
next
  case (Cons c0 s)
  from assms obtain d where d: "parse_roman_character c0 = Some d" "c0 \<noteq> NUL" "c0 \<noteq> NL"
    unfolding Cons by (auto simp: consume_Cons split: if_splits option.splits)
  have l0: "line str = c0 # line s" using Cons d by (simp add: line_Cons)
  from assms d consider
    (one) "n = 1" | (two) q where "n = 2" "parse_roman_character (char_at s 0) = Some q"
    | (many) "parse_roman_character (char_at s 0) = Some d"
        "n = int32 (2 + int (length (takeWhile (\<lambda>x. x = c0) (tl s))))"
    unfolding Cons by (auto simp: consume_Cons Let_def split: if_splits option.splits)
  then show ?thesis
  proof cases
    case one
    show ?thesis
      by (rule exI [of _ 1]) (use one d l0 Cons in \<open>simp add: int32_small\<close>)
  next
    case two
    then obtain c1 s' where s: "s = c1 # s'" "parse_roman_character c1 = Some q"
      using roman_not_end [OF two(2)] char_at_0_end [of s] by auto
    have "line str = c0 # c1 # line s'"
      using l0 s roman_not_end [OF s(2)] by (simp add: line_Cons)
    then show ?thesis
      by (intro exI [of _ 2]) (use two s d Cons in \<open>simp add: int32_small numeral_2_eq_2\<close>)
  next
    case many
    then obtain c1 s' where s: "s = c1 # s'" "parse_roman_character c1 = Some d"
      using roman_not_end [OF many(1)] char_at_0_end [of s] by auto
    have c1: "c1 = c0" using s(2) d(1) by (rule roman_inj)
    let ?k = "length (takeWhile (\<lambda>x. x = c0) s')"
    have l: "line str = c0 # c0 # line s'"
      using l0 s c1 d by (simp add: line_Cons)
    have le: "?k \<le> length (line s')" using d(3,2) by (rule run_le_line)
    have run: "\<forall>x\<in>set (takeWhile (\<lambda>x. x = c0) s'). x = c0"
      using set_takeWhileD [where P = "\<lambda>x. x = c0" and xs = s'] by blast
    have eq: "take ?k s' = takeWhile (\<lambda>x. x = c0) s'"
      by (rule takeWhile_eq_take [symmetric])
    have "\<forall>c\<in>set (take (Suc (Suc ?k)) str). parse_roman_character c \<noteq> None"
      using run eq d(1) Cons s(1) c1 by auto
    moreover have "n = int32 (int (Suc (Suc ?k)))" using many(2) s(1) by (simp add: add.commute)
    moreover have "Suc (Suc ?k) \<le> length (line str)" using le l by simp
    ultimately show ?thesis by (intro exI [of _ "Suc (Suc ?k)"]) simp
  qed
qed

lemma consume_le_line:
  assumes "consume_next_token str = Inr (n, t)"
  shows "nat n \<le> length (line str)"
proof -
  from consume_span [OF assms] obtain m where m: "m \<le> length (line str)" "n = int32 (int m)"
    by blast
  have "int32 (int m) \<le> int m" by (rule int32_le) simp
  with m show ?thesis by linarith
qed


lemma consume_pos:
  assumes "consume_next_token str = Inr (n, t)" and "length (line str) < 2147483648"
  shows "0 < n"
proof -
  from consume_span [OF assms(1)] obtain m where m: "0 < m" "m \<le> length (line str)"
    "n = int32 (int m)"
    by blast
  with assms(2) have "int32 (int m) = int m" by (intro int32_small) simp_all
  with m show ?thesis by simp
qed

lemma consume_prefix_digit:
  "consume_next_token str = Inr (n, t) \<Longrightarrow>
   parse_roman_character (char_at str 0) = Some (prefix_digit t)"
  by (cases str)
    (auto simp: consume_Nil consume_Cons Let_def prefix_digit_def split: if_splits option.splits)

lemma consume_legal:
  assumes "consume_next_token str = Inr (n, t)"
  shows "case t of PAIR p s \<Rightarrow> n = 2 \<and> valid_pair p s
         | REPEAT d c \<Rightarrow> n = c \<and> valid_repeats d c"
proof (cases str)
  case Nil
  with assms show ?thesis by (simp add: consume_Nil)
next
  case (Cons c0 s)
  from assms obtain d where d: "parse_roman_character c0 = Some d" "c0 \<noteq> NUL" "c0 \<noteq> NL"
    unfolding Cons by (auto simp: consume_Cons split: if_splits option.splits)
  have one: "valid_repeats d 1"
    using roman_values [OF d(1)] by (auto simp: valid_repeats_def)
  from assms d one show ?thesis
    unfolding Cons
    by (auto simp: consume_Cons Let_def split: if_splits option.splits)
qed

lemma consume_nonzero: "consume_next_token str = Inr (n, t) \<Longrightarrow> n \<noteq> 0"
  using consume_legal [of str n t] by (auto simp: valid_repeats_def split: token.splits)

subsection \<open>Unfolding the parse loop\<close>

lemma parse_loop_end:
  "char_at str 0 = NL \<or> char_at str 0 = NUL \<Longrightarrow> parse_loop str prev tally = Some (Inr tally)"
  by (subst parse_loop.simps) auto

lemma parse_loop_err:
  "char_at str 0 \<noteq> NL \<Longrightarrow> char_at str 0 \<noteq> NUL \<Longrightarrow> consume_next_token str = Inl e \<Longrightarrow>
   parse_loop str prev tally = Some (Inl e)"
  by (subst parse_loop.simps) simp

lemma parse_loop_abort:
  "char_at str 0 \<noteq> NL \<Longrightarrow> char_at str 0 \<noteq> NUL \<Longrightarrow> consume_next_token str = Inr (n, t) \<Longrightarrow>
   \<not> 0 < n \<Longrightarrow> parse_loop str prev tally = Some (Inl AssertionFailed)"
  by (subst parse_loop.simps) simp

lemma parse_loop_step:
  "char_at str 0 \<noteq> NL \<Longrightarrow> char_at str 0 \<noteq> NUL \<Longrightarrow> consume_next_token str = Inr (n, t) \<Longrightarrow>
   0 < n \<Longrightarrow>
   parse_loop str prev tally =
     (if valid_sequence prev t
      then parse_loop (drop (nat n) str) t (int32 (tally + token_value t))
      else Some (Inl (InvalidSequence (sprint_token 32 prev) (sprint_token 32 t))))"
  by (subst parse_loop.simps) simp

lemma parse_loop_induct [case_names stop err abort step]:
  assumes stop: "\<And>str prev tally. char_at str 0 = NL \<or> char_at str 0 = NUL \<Longrightarrow> P str prev tally"
    and err: "\<And>str prev tally e. char_at str 0 \<noteq> NL \<Longrightarrow> char_at str 0 \<noteq> NUL \<Longrightarrow>
               consume_next_token str = Inl e \<Longrightarrow> P str prev tally"
    and abort: "\<And>str prev tally n t. char_at str 0 \<noteq> NL \<Longrightarrow> char_at str 0 \<noteq> NUL \<Longrightarrow>
               consume_next_token str = Inr (n, t) \<Longrightarrow> \<not> 0 < n \<Longrightarrow> P str prev tally"
    and step: "\<And>str prev tally n t. char_at str 0 \<noteq> NL \<Longrightarrow> char_at str 0 \<noteq> NUL \<Longrightarrow>
               consume_next_token str = Inr (n, t) \<Longrightarrow> 0 < n \<Longrightarrow>
               (valid_sequence prev t \<Longrightarrow>
                  P (drop (nat n) str) t (int32 (tally + token_value t))) \<Longrightarrow>
               P str prev tally"
  shows "P str prev tally"
proof (induction str arbitrary: prev tally rule: length_induct)
  case (1 str prev tally)
  show ?case
  proof (cases "char_at str 0 = NL \<or> char_at str 0 = NUL")
    case True
    then show ?thesis by (rule stop)
  next
    case False
    then have ne: "char_at str 0 \<noteq> NL" "char_at str 0 \<noteq> NUL" by simp_all
    then have "str \<noteq> []" by auto
    show ?thesis
    proof (cases "consume_next_token str")
      case (Inl e)
      with ne show ?thesis by (rule err)
    next
      case (Inr res)
      then obtain n t where c: "consume_next_token str = Inr (n, t)" by (cases res) simp
      show ?thesis
      proof (cases "0 < n")
        case False
        with ne c show ?thesis by (rule abort)
      next
        case True
        with \<open>str \<noteq> []\<close> have "length (drop (nat n) str) < length str" by simp
        with 1 have "P (drop (nat n) str) t (int32 (tally + token_value t))" by blast
        then show ?thesis by (intro step [OF ne c True])
      qed
    qed
  qed
qed

lemma parse_loop_returns: "\<exists>r. parse_loop str prev tally = Some r"
proof (induction str prev tally rule: parse_loop_induct)
  case (stop str prev tally)
  then show ?case by (simp add: parse_loop_end)
next
  case (err str prev tally e)
  then show ?case by (simp add: parse_loop_err)
next
  case (abort str prev tally n t)
  then show ?case by (simp add: parse_loop_abort)
next
  case (step str prev tally n t)
  then show ?case by (simp add: parse_loop_step)
qed

text \<open>
  On a line of fewer than \<open>2\<^sup>3\<^sup>1\<close> characters every count fits \<open>int\<close>, each token
  consumes at least one character and the assertion holds.
\<close>

lemma line_drop_length:
  assumes "consume_next_token str = Inr (n, t)"
  shows "length (line (drop (nat n) str)) = length (line str) - nat n"
  using consume_le_line [OF assms] by (simp add: line_drop)

lemma parse_loop_no_abort:
  "length (line str) < 2147483648 \<Longrightarrow> parse_loop str prev tally \<noteq> Some (Inl AssertionFailed)"
proof (induction str prev tally rule: parse_loop_induct)
  case (stop str prev tally)
  then show ?case by (simp add: parse_loop_end)
next
  case (err str prev tally e)
  then show ?case using consume_no_assert [of str] by (simp add: parse_loop_err)
next
  case (abort str prev tally n t)
  then show ?case using consume_pos [of str n t] by simp
next
  case (step str prev tally n t)
  then show ?case using line_drop_length [of str n t] by (simp add: parse_loop_step)
qed

lemma parse_loop_in_string: "parse_loop str prev tally \<noteq> Some (Inl PointerOutOfString)"
proof (induction str prev tally rule: parse_loop_induct)
  case (stop str prev tally)
  then show ?case by (simp add: parse_loop_end)
next
  case (err str prev tally e)
  then show ?case using consume_no_assert [of str] by (simp add: parse_loop_err)
next
  case (abort str prev tally n t)
  then show ?case by (simp add: parse_loop_abort)
next
  case (step str prev tally n t)
  then show ?case by (simp add: parse_loop_step)
qed

lemma parse_returns_bounded:
  assumes "length (line str) < 2147483648"
  shows "(\<forall>n t. consume_next_token str = Inr (n, t) \<longrightarrow> 0 < n) \<and>
         (\<exists>r. parse_roman_number str = Some r \<and> r \<noteq> Inl AssertionFailed \<and>
               r \<noteq> Inl PointerOutOfString)"
proof
  show "\<forall>n t. consume_next_token str = Inr (n, t) \<longrightarrow> 0 < n"
    using consume_pos assms by blast
  show "\<exists>r. parse_roman_number str = Some r \<and> r \<noteq> Inl AssertionFailed \<and>
               r \<noteq> Inl PointerOutOfString"
  proof (cases "consume_next_token str")
    case (Inl e)
    then show ?thesis
      using consume_no_assert [of str] by (simp add: parse_roman_number_def)
  next
    case (Inr res)
    then obtain n t where c: "consume_next_token str = Inr (n, t)" by (cases res) simp
    have n: "0 < n" using c assms by (rule consume_pos)
    let ?rest = "drop (nat n) str" and ?tally = "int32 (0 + token_value t)"
    have "length (line ?rest) < 2147483648"
      using line_drop_length [OF c] assms by simp
    then have 1: "parse_loop ?rest t ?tally \<noteq> Some (Inl AssertionFailed)"
      by (rule parse_loop_no_abort)
    obtain r where r: "parse_loop ?rest t ?tally = Some r"
      using parse_loop_returns by blast
    have 2: "r \<noteq> Inl PointerOutOfString" using r parse_loop_in_string by blast
    show ?thesis using c n r 1 2 by (simp add: parse_roman_number_def)
  qed
qed

subsection \<open>Values of accepted tokens\<close>

lemma valid_pair_value: "valid_pair p s \<Longrightarrow> 4 \<le> s - p \<and> s - p \<le> 900"
  by (auto simp: valid_pair_def split: if_splits)

lemma pair_token_value: "valid_pair p s \<Longrightarrow> token_value (PAIR p s) = s - p"
  using valid_pair_value [of p s] by (simp add: token_value_def int32_small)

lemma consume_value_bounded:
  assumes tok: "consume_next_token str = Inr (n, t)" and len: "length (line str) \<le> 2147483"
  shows "0 < n \<and> n \<le> int (length (line str)) \<and> 1 \<le> token_value t \<and> token_value t \<le> 1000 * n"
proof -
  from consume_span [OF tok] obtain m where m: "0 < m" "m \<le> length (line str)"
    "n = int32 (int m)"
    by blast
  with len have "int32 (int m) = int m" by (intro int32_small) simp_all
  with m have n: "0 < n" "n \<le> int (length (line str))" by simp_all
  have d: "prefix_digit t \<in> {1, 5, 10, 50, 100, 500, 1000}"
    using consume_prefix_digit [OF tok] by (rule roman_values)
  show ?thesis
  proof (cases t)
    case (PAIR p s)
    with consume_legal [OF tok] have "valid_pair p s" "n = 2" by simp_all
    with PAIR n valid_pair_value [of p s] show ?thesis by (simp add: pair_token_value)
  next
    case (REPEAT d' c)
    with consume_legal [OF tok] have c: "c = n" by simp
    from d REPEAT have d': "1 \<le> d'" "d' \<le> 1000" by (auto simp: prefix_digit_def)
    with n c have b: "1 * 1 \<le> d' * c" "d' * c \<le> 1000 * c"
      using mult_mono [of 1 d' 1 c] mult_right_mono [of d' 1000 c] by simp_all
    with n c len have "int32 (d' * c) = d' * c" by (intro int32_small) simp_all
    with REPEAT c b n show ?thesis by (simp add: token_value_def)
  qed
qed

lemma parse_loop_bounds:
  "parse_loop str prev tally = Some (Inr v) \<Longrightarrow> 0 \<le> tally \<Longrightarrow>
   tally + 1000 * int (length (line str)) \<le> 2147483647 \<Longrightarrow>
   tally \<le> v \<and> v \<le> tally + 1000 * int (length (line str))"
proof (induction str prev tally rule: parse_loop_induct)
  case (stop str prev tally)
  then show ?case by (simp add: parse_loop_end)
next
  case (err str prev tally e)
  then show ?case by (simp add: parse_loop_err)
next
  case (abort str prev tally n t)
  then show ?case by (simp add: parse_loop_abort)
next
  case (step str prev tally n t)
  from step.prems have len: "length (line str) \<le> 2147483" by simp
  note b = consume_value_bounded [OF step.hyps(3) len]
  let ?rest = "drop (nat n) str"
  have l: "int (length (line ?rest)) = int (length (line str)) - n"
    using line_drop_length [OF step.hyps(3)] b by linarith
  have w: "int32 (tally + token_value t) = tally + token_value t"
    using b step.prems by (intro int32_small) simp_all
  from step.prems(1) step.hyps have vs: "valid_sequence prev t"
    and run: "parse_loop ?rest t (tally + token_value t) = Some (Inr v)"
    by (simp_all add: parse_loop_step w split: if_splits)
  have "tally + token_value t \<le> v \<and>
        v \<le> tally + token_value t + 1000 * int (length (line ?rest))"
    using step.IH [OF vs] run w b step.prems l by simp
  with b l show ?case by simp
qed

subsection \<open>An invalid character is never skipped\<close>



subsection \<open>The result depends on the line only\<close>

lemma through_newline_Nil: "through_newline [] = []"
  by (simp add: through_newline_def)

lemma through_newline_Cons:
  "through_newline (c # s) = (if c = NL then [NL] else c # through_newline s)"
  by (simp add: through_newline_def)

lemma line_through_newline: "line (through_newline str) = line str"
  by (induction str) (simp_all add: through_newline_Nil through_newline_Cons line_Cons)

lemma char_at_through_newline: "char_at (through_newline str) 0 = char_at str 0"
  by (cases str) (simp_all add: through_newline_Nil through_newline_Cons)

lemma run_line:
  "c \<noteq> NL \<Longrightarrow> c \<noteq> NUL \<Longrightarrow> takeWhile (\<lambda>x. x = c) (line xs) = takeWhile (\<lambda>x. x = c) xs"
  by (induction xs) (auto simp: line_Cons)

lemma char_at_line:
  "char_at (line s) 0 = (if char_at s 0 = NL then NUL else char_at s 0)"
  by (cases s) (auto simp: line_Cons)

lemma tl_line: "tl (line s) = line (tl s) \<or> line s = []"
  by (cases s) (auto simp: line_Cons)

lemma consume_line: "consume_next_token (line str) = consume_next_token str"
proof (cases str)
  case Nil
  then show ?thesis by simp
next
  case (Cons c s)
  show ?thesis
  proof (cases "c = NUL \<or> c = NL")
    case True
    with Cons show ?thesis by (auto simp: line_Cons consume_Nil consume_Cons)
  next
    case False
    then have l: "line str = c # line s" using Cons by (simp add: line_Cons)
    have "consume_next_token (c # line s) = consume_next_token (c # s)"
    proof (cases "char_at s 0 = NUL \<or> char_at s 0 = NL")
      case True
      then have "char_at (line s) 0 = NUL" by (auto simp: char_at_line)
      with True show ?thesis by (auto simp: consume_Cons split: option.split)
    next
      case ne: False
      then have "line s \<noteq> []" by (simp add: line_empty_iff)
      then have "tl (line s) = line (tl s)" using tl_line [of s] by simp
      then have "takeWhile (\<lambda>x. x = c) (tl (line s)) = takeWhile (\<lambda>x. x = c) (tl s)"
        using False by (simp add: run_line)
      moreover have "char_at (line s) 0 = char_at s 0" using ne by (simp add: char_at_line)
      ultimately show ?thesis by (simp add: consume_Cons cong: option.case_cong if_cong)
    qed
    with l Cons show ?thesis by simp
  qed
qed

lemma parse_loop_line: "parse_loop (line str) prev tally = parse_loop str prev tally"
proof (induction str prev tally rule: parse_loop_induct)
  case (stop str prev tally)
  then have "line str = []" by (simp add: line_empty_iff)
  with stop show ?case by (simp add: parse_loop_end)
next
  case (err str prev tally e)
  then have "char_at (line str) 0 \<noteq> NL" "char_at (line str) 0 \<noteq> NUL"
    by (simp_all add: char_at_line)
  moreover have "consume_next_token (line str) = Inl e"
    using err by (simp add: consume_line)
  ultimately have "parse_loop (line str) prev tally = Some (Inl e)" by (rule parse_loop_err)
  with err show ?case by (simp add: parse_loop_err)
next
  case (abort str prev tally n t)
  then have "char_at (line str) 0 \<noteq> NL" "char_at (line str) 0 \<noteq> NUL"
    by (simp_all add: char_at_line)
  moreover have "consume_next_token (line str) = Inr (n, t)"
    using abort by (simp add: consume_line)
  ultimately have "parse_loop (line str) prev tally = Some (Inl AssertionFailed)"
    using abort(4) by (rule parse_loop_abort)
  with abort show ?case by (simp add: parse_loop_abort)
next
  case (step str prev tally n t)
  have ne: "char_at (line str) 0 \<noteq> NL" "char_at (line str) 0 \<noteq> NUL"
    using step by (simp_all add: char_at_line)
  have tok: "consume_next_token (line str) = Inr (n, t)"
    using step by (simp add: consume_line)
  have le: "nat n \<le> length (line str)" using step(3) by (rule consume_le_line)
  show ?case
    unfolding parse_loop_step [OF ne tok step(4)] parse_loop_step [OF step(1,2,3,4)]
    using step(5) le by (simp add: line_drop)
qed

lemma parse_roman_number_line:
  assumes "char_at s1 0 = NUL \<longleftrightarrow> char_at s2 0 = NUL" and "line s1 = line s2"
  shows "parse_roman_number s1 = parse_roman_number s2"
proof -
  have c: "consume_next_token s1 = consume_next_token s2"
    using assms(2) consume_line [of s1] consume_line [of s2] by simp
  have "parse_loop (drop (nat n) s1) t a = parse_loop (drop (nat n) s2) t a"
    if "consume_next_token s1 = Inr (n, t)" for n t a
  proof -
    have "nat n \<le> length (line s1)" using that by (rule consume_le_line)
    then have "line (drop (nat n) s1) = line (drop (nat n) s2)"
      using assms(2) by (simp add: line_drop)
    then show ?thesis
      using parse_loop_line [of "drop (nat n) s1" t a] parse_loop_line [of "drop (nat n) s2" t a]
      by simp
  qed
  with c assms(1) show ?thesis
    by (auto simp: parse_roman_number_def split: sum.splits)
qed

subsection \<open>One token of the loop\<close>

lemma valid_sequence_iff:
  "valid_sequence first second \<longleftrightarrow>
     (if prefix_digit first \<in> {5, 50, 500}
      then prefix_digit first > suffix_digit second
      else prefix_digit first > prefix_digit second)"
  by (simp add: valid_sequence_def prefix_digit_def suffix_digit_def Let_def)

lemma starts_below_mono: "starts_below q rest \<Longrightarrow> q \<le> q' \<Longrightarrow> starts_below q' rest"
  by (cases rest) (auto split: option.splits)

lemma starts_below_other:
  "starts_below q rest \<Longrightarrow> parse_roman_character c = Some q \<Longrightarrow> rest = [] \<or> hd rest \<noteq> c"
  by (cases rest) (auto split: option.splits dest: roman_not_end)

lemma consume_single:
  "parse_roman_character c = Some q \<Longrightarrow> starts_below q rest \<Longrightarrow>
   consume_next_token (c # rest) = Inr (1, REPEAT q 1)"
  by (cases rest) (auto simp: consume_Cons split: option.splits dest: roman_not_end)

lemma consume_pair:
  assumes "parse_roman_character c0 = Some p" and "parse_roman_character c1 = Some s"
    and "p < s"
  shows "consume_next_token (c0 # c1 # rest) =
           (if valid_pair p s then Inr (2, PAIR p s) else Inl (InvalidPair c0 c1))"
  using assms roman_not_end [OF assms(1)] roman_not_end [OF assms(2)]
  by (simp add: consume_Cons)

lemma takeWhile_run:
  "rest = [] \<or> hd rest \<noteq> c \<Longrightarrow> takeWhile (\<lambda>x. x = c) (replicate k c @ rest) = replicate k c"
proof (induction k)
  case 0
  then show ?case by (cases rest) auto
next
  case (Suc k)
  then show ?case by simp
qed

lemma consume_run:
  assumes c: "parse_roman_character c = Some q" and n: "2 \<le> n"
    and rest: "rest = [] \<or> hd rest \<noteq> c"
  shows "consume_next_token (replicate n c @ rest) =
           (if valid_repeats q (int32 (int n))
            then Inr (int32 (int n), REPEAT q (int32 (int n)))
            else Inl (InvalidRepeatCount c (int32 (int n))))"
proof -
  from n obtain k where k: "n = Suc (Suc k)" by (metis Suc_le_D numeral_2_eq_2 Suc_le_mono)
  have "length (takeWhile (\<lambda>x. x = c) (replicate k c @ rest)) = k"
    using rest by (simp add: takeWhile_run)
  moreover have "2 + int k = int n" using k by simp
  ultimately show ?thesis
    using c roman_not_end [OF c] unfolding k
    by (simp add: consume_Cons Let_def add.commute)
qed

lemma legal_repeats_iff:
  assumes "parse_roman_character c = Some d" and "1 \<le> n"
  shows "valid_repeats d (int n) \<longleftrightarrow> legal_repeats d n"
  using roman_values [OF assms(1)] assms(2)
  by (auto simp: valid_repeats_def legal_repeats_def)

lemma replicate_pos: "0 < n \<Longrightarrow> replicate n c = c # replicate (n - 1) c"
  by (cases n) simp_all

lemma loop_token:
  assumes "consume_next_token (seg @ rest) = Inr (int (length seg), t)" and "seg \<noteq> []"
    and "valid_sequence prev t"
  shows "parse_loop (seg @ rest) prev tally = parse_loop rest t (int32 (tally + token_value t))"
proof -
  have "char_at (seg @ rest) 0 \<noteq> NL \<and> char_at (seg @ rest) 0 \<noteq> NUL"
    using consume_prefix_digit [OF assms(1)] roman_not_end by blast
  moreover have "0 < int (length seg)" using assms(2) by simp
  ultimately show ?thesis
    using parse_loop_step [OF _ _ assms(1), of prev tally] assms(3) by simp
qed

lemma loop_single:
  assumes "parse_roman_character c = Some q" and "starts_below q rest"
    and "valid_sequence prev (REPEAT q 1)"
  shows "parse_loop (c # rest) prev tally =
           parse_loop rest (REPEAT q 1) (int32 (tally + token_value (REPEAT q 1)))"
  using loop_token [of "[c]" rest "REPEAT q 1" prev tally] consume_single [OF assms(1,2)] assms(3)
  by simp

lemma loop_pair:
  assumes "parse_roman_character c0 = Some p" and "parse_roman_character c1 = Some s"
    and "valid_pair p s" and "p < s" and "valid_sequence prev (PAIR p s)"
  shows "parse_loop (c0 # c1 # rest) prev tally =
           parse_loop rest (PAIR p s) (int32 (tally + token_value (PAIR p s)))"
  using loop_token [of "[c0, c1]" rest "PAIR p s" prev tally]
    consume_pair [OF assms(1,2,4), of rest] assms(3,5)
  by simp

lemma loop_run:
  assumes "parse_roman_character c = Some q" and "2 \<le> n" and "n < 2147483648"
    and "rest = [] \<or> hd rest \<noteq> c"
    and "valid_repeats q (int n)" and "valid_sequence prev (REPEAT q (int n))"
  shows "parse_loop (replicate n c @ rest) prev tally =
           parse_loop rest (REPEAT q (int n)) (int32 (tally + token_value (REPEAT q (int n))))"
proof -
  have "int32 (int n) = int n" using assms(3) by (intro int32_small) simp_all
  then show ?thesis
    using loop_token [of "replicate n c" rest "REPEAT q (int n)" prev tally]
      consume_run [OF assms(1,2,4)] assms(2,5,6)
    by auto
qed

lemma parse_via_loop:
  assumes "parse_loop s prev 0 = Some (Inr v)" and "v \<noteq> 0" and "1000 < prefix_digit prev"
  shows "parse_roman_number s = Some (Inr v)"
proof -
  have ne: "char_at s 0 \<noteq> NL" "char_at s 0 \<noteq> NUL"
    using assms(1,2) parse_loop_end [of s prev 0] by auto
  show ?thesis
  proof (cases "consume_next_token s")
    case (Inl e)
    with ne assms(1) show ?thesis by (simp add: parse_loop_err)
  next
    case (Inr res)
    then obtain n t where tok: "consume_next_token s = Inr (n, t)" by (cases res) simp
    have n: "0 < n"
      using parse_loop_abort [OF ne tok, of prev 0] assms(1) by (cases "0 < n") simp_all
    have "prefix_digit t \<le> 1000"
      using roman_values [OF consume_prefix_digit [OF tok]] by auto
    with assms(3) have "valid_sequence prev t" by (auto simp: valid_sequence_iff)
    then show ?thesis
      using ne tok n assms(1) by (simp add: parse_roman_number_def parse_loop_step)
  qed
qed

lemma parse_loop_shift:
  "parse_loop s p b = Some (Inr v) \<Longrightarrow>
   parse_loop s p (int32 (a + b)) = Some (Inr (int32 (a + v)))"
proof (induction s p b rule: parse_loop_induct)
  case (stop str prev tally)
  then show ?case by (simp add: parse_loop_end)
next
  case (err str prev tally e)
  then show ?case by (simp add: parse_loop_err)
next
  case (abort str prev tally n t)
  then show ?case by (simp add: parse_loop_abort)
next
  case (step str prev tally n t)
  have "int32 (int32 (a + tally) + token_value t) = int32 (a + int32 (tally + token_value t))"
    by (simp add: int32_add_left int32_add_right add.assoc)
  with step show ?case by (simp add: parse_loop_step split: if_splits)
qed

subsection \<open>Inputs made of one run\<close>

lemma parse_one_run:
  assumes c: "parse_roman_character c = Some q" and n: "1 \<le> n" "n < 2147483648"
    and v: "valid_repeats q (int n)"
  shows "parse_roman_number (replicate n c) = Some (Inr (int32 (q * int n)))"
proof -
  have w: "int32 (int n) = int n" using n by (intro int32_small) simp_all
  have tok: "consume_next_token (replicate n c @ []) = Inr (int n, REPEAT q (int n))"
  proof (cases "n = 1")
    case True
    then show ?thesis using consume_single [OF c, of "[]"] by simp
  next
    case False
    with n have "2 \<le> n" by simp
    then show ?thesis using consume_run [OF c, of n "[]"] v w by simp
  qed
  have "char_at (replicate n c) 0 = c" using n by (cases n) simp_all
  then have "char_at (replicate n c) 0 \<noteq> NUL" using roman_not_end [OF c] by simp
  moreover have "int32 (0 + int32 (q * int n)) = int32 (q * int n)"
    using int32_add_right [of 0 "q * int n"] by simp
  ultimately show ?thesis
    using tok by (simp add: parse_roman_number_def parse_loop_end token_value_def)
qed

lemma parse_after_thousands:
  assumes n: "1 \<le> n" "n < 2147483648" and rest: "parse_roman_number rest = Some (Inr v)"
    and hd: "hd rest \<noteq> CHR ''M''"
  shows "parse_roman_number (replicate n CHR ''M'' @ rest) =
           Some (Inr (int32 (1000 * int n + v)))"
proof -
  let ?M = "CHR ''M''" and ?run = "REPEAT 1000 (int n)"
  have M: "parse_roman_character ?M = Some 1000" by (simp add: parse_roman_character_def)
  have w: "int32 (int n) = int n" using n by (intro int32_small) simp_all
  from rest obtain k t where tok: "consume_next_token rest = Inr (k, t)" and k0: "\<not> k < 0"
    and loop: "parse_loop (drop (nat k) rest) t (int32 (0 + token_value t)) = Some (Inr v)"
    by (auto simp: parse_roman_number_def split: if_splits sum.splits)
  have k: "0 < k" using k0 consume_nonzero [OF tok] by simp
  have pd: "parse_roman_character (char_at rest 0) = Some (prefix_digit t)"
    using tok by (rule consume_prefix_digit)
  then have ne: "char_at rest 0 \<noteq> NL" "char_at rest 0 \<noteq> NUL"
    using roman_not_end by blast+
  then obtain c s where cs: "rest = c # s" using char_at_0_end by blast
  have "prefix_digit t \<noteq> 1000"
    using pd M hd cs roman_inj [of c "prefix_digit t" ?M] by auto
  with roman_values [OF pd] have lt: "prefix_digit t < 1000" by auto
  then have below: "starts_below 1000 rest" using pd cs by simp
  have other: "rest = [] \<or> hd rest \<noteq> ?M" using hd by simp
  have vr: "valid_repeats 1000 (int n)" using n by (simp add: valid_repeats_def)
  have tokM: "consume_next_token (replicate n ?M @ rest) = Inr (int n, ?run)"
  proof (cases "n = 1")
    case True
    then show ?thesis using consume_single [OF M below] by simp
  next
    case False
    with n have "2 \<le> n" by simp
    then show ?thesis using consume_run [OF M _ other, of n] vr w by simp
  qed
  have neM: "char_at (replicate n ?M @ rest) 0 \<noteq> NUL"
    using consume_prefix_digit [OF tokM] roman_not_end by blast
  have "parse_roman_number (replicate n ?M @ rest) =
          parse_loop rest ?run (int32 (0 + token_value ?run))"
    using neM tokM by (simp add: parse_roman_number_def)
  also have "\<dots> = parse_loop (drop (nat k) rest) t
                      (int32 (int32 (0 + token_value ?run) + token_value t))"
    using parse_loop_step [OF ne tok k, of ?run] lt
    by (simp add: valid_sequence_iff prefix_digit_def)
  also have "int32 (int32 (0 + token_value ?run) + token_value t) =
               int32 (1000 * int n + int32 (0 + token_value t))"
    by (simp add: int32_add_left int32_add_right token_value_def)
  also have "parse_loop (drop (nat k) rest) t (int32 (1000 * int n + int32 (0 + token_value t)))
               = Some (Inr (int32 (1000 * int n + v)))"
    using loop by (rule parse_loop_shift)
  finally show ?thesis .
qed

text \<open>
  A letter D followed by \<open>2\<^sup>3\<^sup>1\<close> letters C: the run is counted as \<open>INT_MIN\<close>, the
  tokenizer accepts it, and the assertion of the loop fails.
\<close>

lemma consume_huge_run:
  "consume_next_token (replicate 2147483648 CHR ''C'') =
     Inr (- 2147483648, REPEAT 100 (- 2147483648))"
proof -
  have C: "parse_roman_character CHR ''C'' = Some 100" by (simp add: parse_roman_character_def)
  show ?thesis
    using consume_run [OF C, of 2147483648 "[]"]
    by (simp add: int32_numerals valid_repeats_def)
qed

lemma parse_huge_run:
  "parse_roman_number (CHR ''D'' # replicate 2147483648 CHR ''C'') = Some (Inl AssertionFailed)"
proof -
  let ?run = "replicate 2147483648 CHR ''C''"
  have D: "parse_roman_character CHR ''D'' = Some 500" by (simp add: parse_roman_character_def)
  have r: "?run = CHR ''C'' # replicate 2147483647 CHR ''C''"
    using replicate_pos [of 2147483648 "CHR ''C''"] by simp
  have "starts_below 500 ?run" by (subst r) (simp add: parse_roman_character_def)
  then have tok: "consume_next_token (CHR ''D'' # ?run) = Inr (1, REPEAT 500 1)"
    using D by (intro consume_single)
  have ne: "char_at ?run 0 \<noteq> NL" "char_at ?run 0 \<noteq> NUL"
    by (subst r, simp add: NL_def NUL_def)+
  have "parse_loop ?run (REPEAT 500 1) tally = Some (Inl AssertionFailed)" for tally
    using ne consume_huge_run by (rule parse_loop_abort) simp
  then show ?thesis using tok by (simp add: parse_roman_number_def NUL_def)
qed

subsection \<open>The canonical numeral, place by place\<close>

lemma digit_numeral_simps:
  "digit_numeral one five ten 0 = []"
  "digit_numeral one five ten (Suc 0) = [one]"
  "digit_numeral one five ten 2 = [one, one]"
  "digit_numeral one five ten 3 = [one, one, one]"
  "digit_numeral one five ten 4 = [one, five]"
  "digit_numeral one five ten 5 = [five]"
  "digit_numeral one five ten 6 = [five, one]"
  "digit_numeral one five ten 7 = [five, one, one]"
  "digit_numeral one five ten 8 = [five, one, one, one]"
  "digit_numeral one five ten 9 = [one, ten]"
  by (simp_all add: digit_numeral_def numeral_eq_Suc)

lemma digit_cases:
  assumes "d < (10::nat)"
  obtains "d = 0" | "d = 1" | "d = 2" | "d = 3" | "d = 4" | "d = 5" | "d = 6" | "d = 7"
    | "d = 8" | "d = 9"
proof -
  have "d = 0 \<or> d = 1 \<or> d = 2 \<or> d = 3 \<or> d = 4 \<or> d = 5 \<or> d = 6 \<or> d = 7 \<or> d = 8 \<or> d = 9"
    using assms by arith
  then show ?thesis using that by blast
qed

lemma starts_below_digit_numeral:
  assumes one: "parse_roman_character one = Some u"
    and five: "parse_roman_character five = Some (5 * u)"
    and q: "5 * u < q" "0 < u" and d: "d < 10" and rest: "starts_below q rest"
  shows "starts_below q (digit_numeral one five ten d @ rest)"
  using d
proof (cases d rule: digit_cases)
  case 1
  then show ?thesis using rest by (simp add: digit_numeral_simps)
qed (use one five q in \<open>simp_all add: digit_numeral_simps\<close>)

lemma valid_sequence_level:
  assumes "u \<in> {1, 10, 100}" and "10 * u \<le> prefix_digit prev"
  shows "valid_sequence prev (REPEAT u k)" "valid_sequence prev (REPEAT (5 * u) k)"
    "valid_sequence prev (PAIR u (5 * u))" "valid_sequence prev (PAIR u (10 * u))"
  using assms by (auto simp: valid_sequence_iff prefix_digit_def suffix_digit_def)

lemma valid_sequence_five:
  "u \<in> {1, 10, 100} \<Longrightarrow> valid_sequence (REPEAT (5 * u) 1) (REPEAT u k)"
  by (auto simp: valid_sequence_iff prefix_digit_def suffix_digit_def)

lemma digit_level:
  assumes one: "parse_roman_character one = Some u"
    and five: "parse_roman_character five = Some (5 * u)"
    and ten: "parse_roman_character ten = Some (10 * u)"
    and u: "u \<in> {1, 10, 100}" and d: "d < 10"
    and rest: "starts_below u rest" and prev: "10 * u \<le> prefix_digit prev"
    and tally: "0 \<le> tally" "tally \<le> 900000"
  shows "\<exists>prev'. u \<le> prefix_digit prev' \<and>
           parse_loop (digit_numeral one five ten d @ rest) prev tally =
             parse_loop rest prev' (tally + int d * u)"
proof -
  note vs = valid_sequence_level [OF u prev]
  from u have u0: "0 < u" "u < 5 * u" "u < 10 * u" "u \<le> 100" by auto
  have w: "int32 (t + x) = t + x" if "0 \<le> t" "t \<le> 1000000" "0 \<le> x" "x \<le> 1000" for t x
    by (rule int32_small) (use that in simp_all)
  have tv: "token_value (REPEAT u 1) = u" "token_value (REPEAT u 2) = 2 * u"
    "token_value (REPEAT u 3) = 3 * u" "token_value (REPEAT (5 * u) 1) = 5 * u"
    using u by (auto simp: token_value_def int32_small)
  from u have vr: "valid_repeats u 2" "valid_repeats u 3"
    by (auto simp: valid_repeats_def)
  from u have vp: "valid_pair u (5 * u)" "valid_pair u (10 * u)"
    by (auto simp: valid_pair_def)
  have tvp: "token_value (PAIR u (5 * u)) = 4 * u" "token_value (PAIR u (10 * u)) = 9 * u"
    using vp by (simp_all add: pair_token_value)
  have other: "rest = [] \<or> hd rest \<noteq> one" using rest one by (rule starts_below_other)
  have rest5: "starts_below (5 * u) rest" using rest u0 by (simp add: starts_below_mono)
  have after5: "starts_below (5 * u) (one # xs)" for xs using one u0 by simp
  have r2: "replicate 2 one = [one, one]" and r3: "replicate 3 one = [one, one, one]"
    by (simp_all add: numeral_eq_Suc)
  have ones1: "parse_loop (one # rest) p t = parse_loop rest (REPEAT u 1) (t + u)"
    if "valid_sequence p (REPEAT u 1)" "0 \<le> t" "t \<le> 1000000" for p t
    using loop_single [OF one rest that(1), of t] w [of t u] that u0 by (simp add: tv)
  have ones2: "parse_loop (one # one # rest) p t = parse_loop rest (REPEAT u 2) (t + 2 * u)"
    if "valid_sequence p (REPEAT u 2)" "0 \<le> t" "t \<le> 1000000" for p t
    using loop_run [OF one _ _ other, of 2 p t] vr(1) w [of t "2 * u"] that u0
    by (simp add: r2 tv)
  have ones3: "parse_loop (one # one # one # rest) p t = parse_loop rest (REPEAT u 3) (t + 3 * u)"
    if "valid_sequence p (REPEAT u 3)" "0 \<le> t" "t \<le> 1000000" for p t
    using loop_run [OF one _ _ other, of 3 p t] vr(2) w [of t "3 * u"] that u0
    by (simp add: r3 tv)
  have fiveN: "parse_loop (five # one # xs) prev tally = parse_loop (one # xs) (REPEAT (5 * u) 1) (tally + 5 * u)"
    for xs
    using loop_single [OF five after5 vs(2), of xs tally] w [of tally "5 * u"] tally u0
    by (simp add: tv)
  have t5: "0 \<le> tally + 5 * u" "tally + 5 * u \<le> 1000000" using tally u0 by simp_all
  have t0: "0 \<le> tally" "tally \<le> 1000000" using tally by simp_all
  note v5 = valid_sequence_five [OF u]
  from d show ?thesis
  proof (cases d rule: digit_cases)
    case 1
    then show ?thesis using prev u0
      by (intro exI [of _ prev]) (simp add: digit_numeral_simps)
  next
    case 2
    have "parse_loop ([one] @ rest) prev tally = parse_loop rest (REPEAT u 1) (tally + 1 * u)"
      using ones1 [OF vs(1) t0] by simp
    then show ?thesis unfolding 2
      by (intro exI [of _ "REPEAT u 1"]) (simp add: digit_numeral_simps prefix_digit_def)
  next
    case 3
    have "parse_loop ([one, one] @ rest) prev tally = parse_loop rest (REPEAT u 2) (tally + 2 * u)"
      using ones2 [OF vs(1) t0] by simp
    then show ?thesis unfolding 3
      by (intro exI [of _ "REPEAT u 2"]) (simp add: digit_numeral_simps prefix_digit_def)
  next
    case 4
    have "parse_loop ([one, one, one] @ rest) prev tally = parse_loop rest (REPEAT u 3) (tally + 3 * u)"
      using ones3 [OF vs(1) t0] by simp
    then show ?thesis unfolding 4
      by (intro exI [of _ "REPEAT u 3"]) (simp add: digit_numeral_simps prefix_digit_def)
  next
    case 5
    have "parse_loop ([one, five] @ rest) prev tally = parse_loop rest (PAIR u (5 * u)) (tally + 4 * u)"
      using loop_pair [OF one five vp(1) u0(2) vs(3), of rest tally] w [of tally "4 * u"] tally u0
      by (simp add: tvp)
    then show ?thesis unfolding 5
      by (intro exI [of _ "PAIR u (5 * u)"]) (simp add: digit_numeral_simps prefix_digit_def)
  next
    case 6
    have "parse_loop ([five] @ rest) prev tally = parse_loop rest (REPEAT (5 * u) 1) (tally + 5 * u)"
      using loop_single [OF five rest5 vs(2), of tally] w [of tally "5 * u"] tally u0
      by (simp add: tv)
    then show ?thesis unfolding 6 using u0
      by (intro exI [of _ "REPEAT (5 * u) 1"]) (simp add: digit_numeral_simps prefix_digit_def)
  next
    case 7
    have e6: "tally + 5 * u + u = tally + 6 * u" by simp
    have "parse_loop ([five, one] @ rest) prev tally = parse_loop rest (REPEAT u 1) (tally + 6 * u)"
      unfolding e6 [symmetric] by (simp only: append_Cons append_Nil fiveN ones1 [OF v5 t5])
    then show ?thesis unfolding 7
      by (intro exI [of _ "REPEAT u 1"]) (simp add: digit_numeral_simps prefix_digit_def)
  next
    case 8
    have e7: "tally + 5 * u + 2 * u = tally + 7 * u" by simp
    have "parse_loop ([five, one, one] @ rest) prev tally = parse_loop rest (REPEAT u 2) (tally + 7 * u)"
      unfolding e7 [symmetric] by (simp only: append_Cons append_Nil fiveN ones2 [OF v5 t5])
    then show ?thesis unfolding 8
      by (intro exI [of _ "REPEAT u 2"]) (simp add: digit_numeral_simps prefix_digit_def)
  next
    case 9
    have e8: "tally + 5 * u + 3 * u = tally + 8 * u" by simp
    have "parse_loop ([five, one, one, one] @ rest) prev tally = parse_loop rest (REPEAT u 3) (tally + 8 * u)"
      unfolding e8 [symmetric] by (simp only: append_Cons append_Nil fiveN ones3 [OF v5 t5])
    then show ?thesis unfolding 9
      by (intro exI [of _ "REPEAT u 3"]) (simp add: digit_numeral_simps prefix_digit_def)
  next
    case 10
    have "parse_loop ([one, ten] @ rest) prev tally = parse_loop rest (PAIR u (10 * u)) (tally + 9 * u)"
      using loop_pair [OF one ten vp(2) u0(3) vs(4), of rest tally] w [of tally "9 * u"] tally u0
      by (simp add: tvp)
    then show ?thesis unfolding 10
      by (intro exI [of _ "PAIR u (10 * u)"]) (simp add: digit_numeral_simps prefix_digit_def)
  qed
qed

lemma thousands_level:
  assumes rest: "starts_below 1000 rest" and prev: "1000 < prefix_digit prev"
    and a: "a \<le> 3" and tally: "0 \<le> tally" "tally \<le> 900000"
  shows "\<exists>prev'. 1000 \<le> prefix_digit prev' \<and>
           parse_loop (replicate a CHR ''M'' @ rest) prev tally =
             parse_loop rest prev' (tally + int a * 1000)"
proof -
  let ?M = "CHR ''M''"
  have M: "parse_roman_character ?M = Some 1000" by (simp add: parse_roman_character_def)
  have vs: "valid_sequence prev (REPEAT 1000 k)" for k
    using prev by (auto simp: valid_sequence_iff prefix_digit_def)
  consider "a = 0" | "a = 1" | "2 \<le> a" by linarith
  then show ?thesis
  proof cases
    case 1
    then show ?thesis using prev by (intro exI [of _ prev]) simp
  next
    case 2
    have "parse_loop (?M # rest) prev tally = parse_loop rest (REPEAT 1000 1) (tally + 1000)"
      using loop_single [OF M rest vs, of tally] tally
      by (simp add: token_value_def int32_small)
    then show ?thesis unfolding 2
      by (intro exI [of _ "REPEAT 1000 1"]) (simp add: prefix_digit_def)
  next
    case 3
    have other: "rest = [] \<or> hd rest \<noteq> ?M" using rest M by (rule starts_below_other)
    have "valid_repeats 1000 (int a)" using 3 by (simp add: valid_repeats_def)
    moreover have "token_value (REPEAT 1000 (int a)) = 1000 * int a"
      using a by (simp add: token_value_def int32_small)
    moreover have "int32 (tally + 1000 * int a) = tally + 1000 * int a"
      using a tally by (intro int32_small) simp_all
    ultimately have "parse_loop (replicate a ?M @ rest) prev tally =
                 parse_loop rest (REPEAT 1000 (int a)) (tally + 1000 * int a)"
      using loop_run [OF M 3 _ other, of prev tally] vs a by simp
    then show ?thesis
      by (intro exI [of _ "REPEAT 1000 (int a)"]) (simp add: prefix_digit_def mult.commute)
  qed
qed

lemma place_value:
  "int v = 0 + int (v div 1000) * 1000 + int (v div 100 mod 10) * 100 + int (v div 10 mod 10) * 10 + int (v mod 10) * 1"
proof -
  have 1: "v = v div 1000 * 1000 + v mod 1000" by simp
  have 2: "v mod 1000 = 100 * (v div 100 mod 10) + v mod 100"
    using mod_mult2_eq [of v 100 10] by simp
  have 3: "v mod 100 = 10 * (v div 10 mod 10) + v mod 10"
    using mod_mult2_eq [of v 10 10] by simp
  have "v = (v div 1000) * 1000 + (v div 100 mod 10) * 100 + (v div 10 mod 10) * 10 + v mod 10"
    using 1 2 3 by linarith
  then have "int v = int ((v div 1000) * 1000 + (v div 100 mod 10) * 100 + (v div 10 mod 10) * 10 + v mod 10)"
    by simp
  then show ?thesis by simp
qed

section \<open>The properties the specification claims\<close>

subsection \<open>The sequence validator\<close>

text \<open>
  Claim C2. For every pair of tokens, \<open>valid_sequence\<close> accepts exactly when: the
  prefix digit of the first token is one of 5, 50, 500 and is strictly greater than
  the suffix digit of the second; or it is none of them and is strictly greater than
  the prefix digit of the second.
\<close>

theorem valid_sequence_rule:
  "valid_sequence first second \<longleftrightarrow>
     (if prefix_digit first \<in> {5, 50, 500}
      then prefix_digit first > suffix_digit second
      else prefix_digit first > prefix_digit second)"
  by (simp add: valid_sequence_def prefix_digit_def suffix_digit_def Let_def)

subsection \<open>Pairs and lonely digits\<close>

text \<open>
  Claim C4. When the input starts with two roman digits of values \<open>first\<close> and
  \<open>second\<close>: if \<open>first < second\<close> the tokenizer emits the Pair of the two and
  consumes 2 characters when the pair is in the legal-pairs table, and fails with the
  invalid-pair error otherwise; if \<open>first > second\<close> it emits the Repeat of
  \<open>first\<close> with count 1, consuming 1 character.
\<close>

theorem tokenizer_two_digits:
  assumes "parse_roman_character c0 = Some first"
    and "parse_roman_character c1 = Some second"
  shows "(first < second \<longrightarrow>
            consume_next_token (c0 # c1 # rest) =
              (if (first, second) \<in> set legal_pairs then Inr (2, PAIR first second)
               else Inl (InvalidPair c0 c1))) \<and>
         (first > second \<longrightarrow>
            consume_next_token (c0 # c1 # rest) = Inr (1, REPEAT first 1))"
proof -
  from assms have ne: "c0 \<noteq> NUL" "c0 \<noteq> NL" "c1 \<noteq> NUL" "c1 \<noteq> NL"
    by (auto dest: roman_not_end)
  have tbl: "valid_pair first second \<longleftrightarrow> (first, second) \<in> set legal_pairs"
    if "first < second"
    using that roman_values [OF assms(1)] roman_values [OF assms(2)]
    by (auto simp: valid_pair_def legal_pairs_def)
  show ?thesis
    using assms ne tbl by (simp add: consume_Cons)
qed

theorem tokenizer_two_digits_witness:
  "consume_next_token ''IV'' = Inr (2, PAIR 1 5) \<and>
   consume_next_token ''IL'' = Inl (InvalidPair CHR ''I'' CHR ''L'') \<and>
   consume_next_token ''VI'' = Inr (1, REPEAT 5 1)"
proof -
  have I: "parse_roman_character CHR ''I'' = Some 1"
    and V: "parse_roman_character CHR ''V'' = Some 5"
    and L: "parse_roman_character CHR ''L'' = Some 50"
    by (simp_all add: parse_roman_character_def)
  show ?thesis
    using tokenizer_two_digits [OF I V, of "[]"] tokenizer_two_digits [OF I L, of "[]"]
      tokenizer_two_digits [OF V I, of "[]"]
    by (simp add: legal_pairs_def)
qed

subsection \<open>Empty input\<close>

text \<open>
  Claim C5. Parsing the empty string fails with the empty-input error; parsing a lone
  line terminator fails too, but with the end-of-input error of the tokenizer ("EOF"),
  since the entry point tests for NUL only.
\<close>

theorem parse_empty_and_newline:
  "parse_roman_number [] = Some (Inl EmptyInput) \<and>
   parse_roman_number [NL] = Some (Inl EndOfInput)"
  by (simp add: parse_roman_number_def consume_Cons NL_def NUL_def)

subsection \<open>A rejected sequence\<close>

text \<open>
  Claim C7. In "IVIV" both occurrences of "IV" are tokenized as the Pair (1, 5), the
  sequence validator rejects a Pair (1, 5) after a Pair (1, 5), and the parse fails
  with the invalid-sequence error naming "IV" twice.
\<close>

theorem parse_IVIV:
  "consume_next_token ''IVIV'' = Inr (2, PAIR 1 5) \<and>
   consume_next_token ''IV'' = Inr (2, PAIR 1 5) \<and>
   \<not> valid_sequence (PAIR 1 5) (PAIR 1 5) \<and>
   parse_roman_number ''IVIV'' = Some (Inl (InvalidSequence (Some ''IV'') (Some ''IV'')))"
proof (intro conjI)
  show "consume_next_token ''IVIV'' = Inr (2, PAIR 1 5)" by code_simp
  show "consume_next_token ''IV'' = Inr (2, PAIR 1 5)" by code_simp
  show "\<not> valid_sequence (PAIR 1 5) (PAIR 1 5)" by code_simp
  show "parse_roman_number ''IVIV'' = Some (Inl (InvalidSequence (Some ''IV'') (Some ''IV'')))"
    by code_simp
qed

subsection \<open>Progress and termination\<close>

text \<open>
  Claim C8. Every successful call of the tokenizer should return a strictly positive
  count, so that the assertion of the parse loop holds. The count is the run length
  cast to \<open>int\<close>: on a run of \<open>2\<^sup>3\<^sup>1\<close> letters C the tokenizer succeeds with the
  count \<open>INT_MIN\<close>, and on the letter D followed by that run the assertion of the
  loop fails.
\<close>

theorem assertion_fails_on_huge_run:
  "consume_next_token (replicate 2147483648 CHR ''C'') =
     Inr (- 2147483648, REPEAT 100 (- 2147483648)) \<and>
   parse_roman_number (CHR ''D'' # replicate 2147483648 CHR ''C'') = Some (Inl AssertionFailed)"
  using consume_huge_run parse_huge_run by (rule conjI)

subsection \<open>Invalid characters\<close>



subsection \<open>Positive values\<close>

text \<open>
  Claim C9, as stated, fails: 2147484 letters M parse successfully to a negative
  value, since the token value 2147484000 and the tally do not fit \<open>int\<close>.
\<close>

theorem parse_positive_counterexample:
  "consume_next_token (replicate 2147484 CHR ''M'') = Inr (2147484, REPEAT 1000 2147484) \<and>
   token_value (REPEAT 1000 2147484) = - 2147483296 \<and>
   parse_roman_number (replicate 2147484 CHR ''M'') = Some (Inr (- 2147483296)) \<and>
   \<not> (1::int) \<le> - 2147483296"
proof (intro conjI)
  have M: "parse_roman_character CHR ''M'' = Some 1000" by (simp add: parse_roman_character_def)
  have w: "int32 2147484 = 2147484" by (simp add: int32_def)
  show "consume_next_token (replicate 2147484 CHR ''M'') = Inr (2147484, REPEAT 1000 2147484)"
    using consume_run [OF M, of 2147484 "[]"] by (simp add: w valid_repeats_def)
  show "token_value (REPEAT 1000 2147484) = - 2147483296"
    by (simp add: token_value_def int32_numerals)
  show "parse_roman_number (replicate 2147484 CHR ''M'') = Some (Inr (- 2147483296))"
    using parse_one_run [OF M, of 2147484] by (simp add: valid_repeats_def int32_numerals)
  show "\<not> (1::int) \<le> - 2147483296" by simp
qed

text \<open>
  Claim C9, amended. On an input whose line has at most 2147483 characters, every
  token the tokenizer accepts is legal and has a value of at least 1 (a Pair at least
  4), and a successful parse returns a value of at least 1.
\<close>

theorem parse_positive:
  assumes "length (line str) \<le> 2147483"
  shows "(\<forall>n t. consume_next_token str = Inr (n, t) \<longrightarrow>
            (case t of
               PAIR p s \<Rightarrow> valid_pair p s \<and> 4 \<le> token_value t
             | REPEAT d c \<Rightarrow> valid_repeats d c \<and> 1 \<le> token_value t)) \<and>
         (\<forall>v. parse_roman_number str = Some (Inr v) \<longrightarrow> 1 \<le> v)"
proof (intro conjI allI impI)
  fix n t
  assume tok: "consume_next_token str = Inr (n, t)"
  show "case t of
         PAIR p s \<Rightarrow> valid_pair p s \<and> 4 \<le> token_value t
       | REPEAT d c \<Rightarrow> valid_repeats d c \<and> 1 \<le> token_value t"
    using consume_legal [OF tok] consume_value_bounded [OF tok assms] valid_pair_value
    by (auto simp: pair_token_value split: token.splits)
next
  fix v
  assume ok: "parse_roman_number str = Some (Inr v)"
  then obtain n t where tok: "consume_next_token str = Inr (n, t)"
    and loop: "parse_loop (drop (nat n) str) t (int32 (0 + token_value t)) = Some (Inr v)"
    by (auto simp: parse_roman_number_def split: if_splits sum.splits)
  note b = consume_value_bounded [OF tok assms]
  have w: "int32 (0 + token_value t) = token_value t"
    using int32_small [of "token_value t"] b assms by simp
  have l: "int (length (line (drop (nat n) str))) = int (length (line str)) - n"
    using line_drop_length [OF tok] b by linarith
  have "token_value t \<le> v"
    using parse_loop_bounds [OF loop] w b l assms by simp
  with b show "1 \<le> v" by simp
qed

theorem parse_positive_witness:
  "length (line ''IX'') \<le> 2147483 \<and> length (line ''II'') \<le> 2147483 \<and>
   consume_next_token ''IX'' = Inr (2, PAIR 1 10) \<and> valid_pair 1 10 \<and>
   4 \<le> token_value (PAIR 1 10) \<and>
   consume_next_token ''II'' = Inr (2, REPEAT 1 2) \<and> valid_repeats 1 2 \<and>
   1 \<le> token_value (REPEAT 1 2) \<and>
   parse_roman_number ''IX'' = Some (Inr 9) \<and> (1::int) \<le> 9"
proof -
  have l1: "length (line ''IX'') \<le> 2147483" and l2: "length (line ''II'') \<le> 2147483"
    by (simp_all add: line_Cons NL_def NUL_def)
  have h1: "consume_next_token ''IX'' = Inr (2, PAIR 1 10)" by code_simp
  have h2: "consume_next_token ''II'' = Inr (2, REPEAT 1 2)" by code_simp
  have h3: "parse_roman_number ''IX'' = Some (Inr 9)" by code_simp
  show ?thesis
    using l1 l2 h1 h2 h3 parse_positive [OF l1] parse_positive [OF l2] by simp
qed

subsection \<open>Text after the line terminator\<close>

text \<open>
  Claim C10. Two inputs that agree up to and including the first line terminator (or
  are equal, when there is none) get the same result from \<open>parse_roman_number\<close>:
  the same value or the same error.
\<close>

theorem parse_ignores_text_after_newline:
  assumes "through_newline s1 = through_newline s2"
  shows "parse_roman_number s1 = parse_roman_number s2"
proof (rule parse_roman_number_line)
  show "char_at s1 0 = NUL \<longleftrightarrow> char_at s2 0 = NUL"
    using assms char_at_through_newline [of s1] char_at_through_newline [of s2] by simp
  show "line s1 = line s2"
    using assms line_through_newline [of s1] line_through_newline [of s2] by simp
qed

theorem parse_ignores_text_after_newline_witness:
  "through_newline (''XIV'' @ NL # ''II'') = through_newline (''XIV'' @ NL # ''?'') \<and>
   parse_roman_number (''XIV'' @ NL # ''II'') = parse_roman_number (''XIV'' @ NL # ''?'') \<and>
   parse_roman_number (''XIV'' @ NL # ''II'') = Some (Inr 14)"
proof -
  have h: "through_newline (''XIV'' @ NL # ''II'') = through_newline (''XIV'' @ NL # ''?'')"
    by (simp add: through_newline_Cons NL_def)
  have v: "parse_roman_number (''XIV'' @ NL # ''II'') = Some (Inr 14)" by code_simp
  show ?thesis using h v parse_ignores_text_after_newline [OF h] by simp
qed

subsection \<open>Runs of one digit\<close>

text \<open>
  Claim C3, as stated, fails in both directions. A run of \<open>2\<^sup>3\<^sup>1\<close> letters I is
  accepted, with the count \<open>INT_MIN\<close>, though the table has no such run; a run of
  \<open>2\<^sup>3\<^sup>2\<close> letters M is rejected, with the count 0, though the table has it; and
  the single I of "Ia", which the table has, is not accepted, since the tokenizer
  looks at the character after it.
\<close>

theorem repeats_follow_table_counterexample:
  "consume_next_token (replicate 2147483648 CHR ''I'') =
     Inr (- 2147483648, REPEAT 1 (- 2147483648)) \<and>
   \<not> legal_repeats 1 2147483648 \<and>
   consume_next_token (replicate 4294967296 CHR ''M'') = Inl (InvalidRepeatCount CHR ''M'' 0) \<and>
   legal_repeats 1000 4294967296 \<and>
   consume_next_token ''Ia'' = Inl (InvalidCharacter CHR ''I'') \<and>
   legal_repeats 1 1"
proof (intro conjI)
  have I: "parse_roman_character CHR ''I'' = Some 1"
    and M: "parse_roman_character CHR ''M'' = Some 1000"
    by (simp_all add: parse_roman_character_def)
  show "consume_next_token (replicate 2147483648 CHR ''I'') =
          Inr (- 2147483648, REPEAT 1 (- 2147483648))"
    using consume_run [OF I, of 2147483648 "[]"] by (simp add: int32_numerals valid_repeats_def)
  show "consume_next_token (replicate 4294967296 CHR ''M'') =
          Inl (InvalidRepeatCount CHR ''M'' 0)"
    using consume_run [OF M, of 4294967296 "[]"] by (simp add: int32_numerals valid_repeats_def)
  show "\<not> legal_repeats 1 2147483648" by (simp add: legal_repeats_def)
  show "legal_repeats 1000 4294967296" by (simp add: legal_repeats_def)
  show "consume_next_token ''Ia'' = Inl (InvalidCharacter CHR ''I'')" by code_simp
  show "legal_repeats 1 1" by (simp add: legal_repeats_def)
qed

text \<open>
  Claim C3, amended. A run of \<open>n\<close> identical roman digits, with \<open>n\<close> from 2 to
  \<open>2\<^sup>3\<^sup>1 - 1\<close>, that the following text does not extend becomes a Repeat token of
  count \<open>n\<close> when the legal-repeats table has the digit with that count, and fails
  with the repeat-count error otherwise; a single digit followed by nothing, a
  terminator or a smaller digit is in the table and is accepted. So "VV", "LL", "DD"
  and "IIII" fail, while a run of 1 to \<open>2\<^sup>3\<^sup>1 - 1\<close> letters M parses, alone or before
  a valid rest that does not start with M, to the sum of the values as \<open>int\<close>.
\<close>

theorem repeats_follow_table:
  "(\<forall>c d n rest. parse_roman_character c = Some d \<and> 2 \<le> n \<and> n < 2147483648 \<and>
        (rest = [] \<or> hd rest \<noteq> c) \<longrightarrow>
      consume_next_token (replicate n c @ rest) =
        (if legal_repeats d n then Inr (int n, REPEAT d (int n))
         else Inl (InvalidRepeatCount c (int n)))) \<and>
   (\<forall>c d rest. parse_roman_character c = Some d \<and> starts_below d rest \<longrightarrow>
      legal_repeats d 1 \<and> consume_next_token (c # rest) = Inr (1, REPEAT d 1)) \<and>
   parse_roman_number ''VV'' = Some (Inl (InvalidRepeatCount CHR ''V'' 2)) \<and>
   parse_roman_number ''LL'' = Some (Inl (InvalidRepeatCount CHR ''L'' 2)) \<and>
   parse_roman_number ''DD'' = Some (Inl (InvalidRepeatCount CHR ''D'' 2)) \<and>
   parse_roman_number ''IIII'' = Some (Inl (InvalidRepeatCount CHR ''I'' 4)) \<and>
   (\<forall>n. 1 \<le> n \<and> n < 2147483648 \<longrightarrow>
      parse_roman_number (replicate n CHR ''M'') = Some (Inr (int32 (1000 * int n)))) \<and>
   (\<forall>n rest v. 1 \<le> n \<and> n < 2147483648 \<and> parse_roman_number rest = Some (Inr v) \<and>
        hd rest \<noteq> CHR ''M'' \<longrightarrow>
      parse_roman_number (replicate n CHR ''M'' @ rest) = Some (Inr (int32 (1000 * int n + v))))"
proof (intro conjI allI impI)
  fix c :: char and d :: int and n :: nat and rest :: string
  assume h: "parse_roman_character c = Some d \<and> 2 \<le> n \<and> n < 2147483648 \<and>
    (rest = [] \<or> hd rest \<noteq> c)"
  then have "int32 (int n) = int n" by (intro int32_small) simp_all
  with h show "consume_next_token (replicate n c @ rest) =
        (if legal_repeats d n then Inr (int n, REPEAT d (int n))
         else Inl (InvalidRepeatCount c (int n)))"
    using consume_run [of c d n rest] legal_repeats_iff [of c d n] by simp
next
  fix c :: char and d :: int and rest :: string
  assume "parse_roman_character c = Some d \<and> starts_below d rest"
  then show "legal_repeats d 1" using roman_values [of c d] by (auto simp: legal_repeats_def)
next
  fix c :: char and d :: int and rest :: string
  assume "parse_roman_character c = Some d \<and> starts_below d rest"
  then show "consume_next_token (c # rest) = Inr (1, REPEAT d 1)"
    using consume_single by simp
next
  show "parse_roman_number ''VV'' = Some (Inl (InvalidRepeatCount CHR ''V'' 2))" by code_simp
  show "parse_roman_number ''LL'' = Some (Inl (InvalidRepeatCount CHR ''L'' 2))" by code_simp
  show "parse_roman_number ''DD'' = Some (Inl (InvalidRepeatCount CHR ''D'' 2))" by code_simp
  show "parse_roman_number ''IIII'' = Some (Inl (InvalidRepeatCount CHR ''I'' 4))" by code_simp
next
  fix n :: nat
  assume "1 \<le> n \<and> n < 2147483648"
  then show "parse_roman_number (replicate n CHR ''M'') = Some (Inr (int32 (1000 * int n)))"
    using parse_one_run [of "CHR ''M''" 1000 n]
    by (simp add: parse_roman_character_def valid_repeats_def)
next
  fix n :: nat and rest :: string and v :: int
  assume "1 \<le> n \<and> n < 2147483648 \<and> parse_roman_number rest = Some (Inr v) \<and>
    hd rest \<noteq> CHR ''M''"
  then show "parse_roman_number (replicate n CHR ''M'' @ rest) =
      Some (Inr (int32 (1000 * int n + v)))"
    using parse_after_thousands by simp
qed

theorem repeats_follow_table_witness:
  "consume_next_token ''XXXI'' = Inr (3, REPEAT 10 3) \<and>
   consume_next_token ''CCCC'' = Inl (InvalidRepeatCount CHR ''C'' 4) \<and>
   consume_next_token ''DC'' = Inr (1, REPEAT 500 1) \<and>
   parse_roman_number ''MMMMMM'' = Some (Inr 6000) \<and>
   parse_roman_number ''MMMMMCDXLIV'' = Some (Inr 5444)"
proof -
  have X: "parse_roman_character CHR ''X'' = Some 10 \<and> (2::nat) \<le> 3 \<and> (3::nat) < 2147483648 \<and>
      (''I'' = [] \<or> hd ''I'' \<noteq> CHR ''X'')"
    by (simp add: parse_roman_character_def)
  have C: "parse_roman_character CHR ''C'' = Some 100 \<and> (2::nat) \<le> 4 \<and> (4::nat) < 2147483648 \<and>
      ([] = [] \<or> hd [] \<noteq> CHR ''C'')"
    by (simp add: parse_roman_character_def)
  have D: "parse_roman_character CHR ''D'' = Some 500 \<and> starts_below 500 ''C''"
    by (simp add: parse_roman_character_def)
  have M6: "(1::nat) \<le> 6 \<and> (6::nat) < 2147483648" by simp
  have M5: "(1::nat) \<le> 5 \<and> (5::nat) < 2147483648 \<and>
      parse_roman_number ''CDXLIV'' = Some (Inr 444) \<and> hd ''CDXLIV'' \<noteq> CHR ''M''"
    by (intro conjI, simp, simp, code_simp, simp)
  note T = repeats_follow_table
  have r6: "replicate 6 CHR ''M'' = ''MMMMMM''" and r5: "replicate 5 CHR ''M'' = ''MMMMM''"
    and r3: "replicate 3 CHR ''X'' = ''XXX''" and r4: "replicate 4 CHR ''C'' = ''CCCC''"
    by (simp_all add: numeral_eq_Suc)
  have "consume_next_token (replicate 3 CHR ''X'' @ ''I'') =
          (if legal_repeats 10 3 then Inr (int 3, REPEAT 10 (int 3))
           else Inl (InvalidRepeatCount CHR ''X'' (int 3)))"
    using T X by blast
  then have a: "consume_next_token ''XXXI'' = Inr (3, REPEAT 10 3)"
    unfolding r3 by (simp add: legal_repeats_def)
  have "consume_next_token (replicate 4 CHR ''C'' @ []) =
          (if legal_repeats 100 4 then Inr (int 4, REPEAT 100 (int 4))
           else Inl (InvalidRepeatCount CHR ''C'' (int 4)))"
    using T C by blast
  then have b: "consume_next_token ''CCCC'' = Inl (InvalidRepeatCount CHR ''C'' 4)"
    unfolding r4 by (simp add: legal_repeats_def)
  have c: "consume_next_token ''DC'' = Inr (1, REPEAT 500 1)"
    using T D by blast
  have "parse_roman_number (replicate 6 CHR ''M'') = Some (Inr (int32 (1000 * int 6)))"
    using T M6 by blast
  then have d: "parse_roman_number ''MMMMMM'' = Some (Inr 6000)"
    unfolding r6 by (simp add: int32_def)
  have "parse_roman_number (replicate 5 CHR ''M'' @ ''CDXLIV'') =
          Some (Inr (int32 (1000 * int 5 + 444)))"
    using T M5 by blast
  then have e: "parse_roman_number ''MMMMMCDXLIV'' = Some (Inr 5444)"
    unfolding r5 by (simp add: int32_def)
  from a b c d e show ?thesis by simp
qed

subsection \<open>Round trip\<close>

text \<open>
  Claim C1. For every \<open>v\<close> from 1 to 3999, parsing the canonical roman numeral of
  \<open>v\<close> succeeds and returns \<open>v\<close>.
\<close>

theorem canonical_roundtrip:
  assumes "1 \<le> v" and "v \<le> 3999"
  shows "parse_roman_number (canonical_roman v) = Some (Inr (int v))"
proof -
  define a b c d where "a = v div 1000" and "b = v div 100 mod 10"
    and "c = v div 10 mod 10" and "d = v mod 10"
  have lt: "b < 10" "c < 10" "d < 10" by (simp_all add: b_def c_def d_def)
  have a3: "a \<le> 3" unfolding a_def using div_le_mono [OF assms(2), of 1000] by simp
  have v: "int v = 0 + int a * 1000 + int b * 100 + int c * 10 + int d * 1"
    unfolding a_def b_def c_def d_def by (rule place_value)
  let ?U = "digit_numeral CHR ''I'' CHR ''V'' CHR ''X'' d"
  let ?T = "digit_numeral CHR ''X'' CHR ''L'' CHR ''C'' c"
  let ?H = "digit_numeral CHR ''C'' CHR ''D'' CHR ''M'' b"
  have I: "parse_roman_character CHR ''I'' = Some 1"
    and V: "parse_roman_character CHR ''V'' = Some (5 * 1)"
    and X: "parse_roman_character CHR ''X'' = Some 10"
    and X1: "parse_roman_character CHR ''X'' = Some (10 * 1)"
    and L: "parse_roman_character CHR ''L'' = Some (5 * 10)"
    and C: "parse_roman_character CHR ''C'' = Some 100"
    and C1: "parse_roman_character CHR ''C'' = Some (10 * 10)"
    and D: "parse_roman_character CHR ''D'' = Some (5 * 100)"
    and M: "parse_roman_character CHR ''M'' = Some (10 * 100)"
    by (simp_all add: parse_roman_character_def)
  have sbU: "starts_below 10 (?U @ [])"
    using I V _ _ lt(3) by (rule starts_below_digit_numeral) simp_all
  have sbT: "starts_below 100 (?T @ ?U @ [])"
    using X L _ _ lt(2) by (rule starts_below_digit_numeral)
      (use sbU in \<open>simp_all add: starts_below_mono\<close>)
  have sbH: "starts_below 1000 (?H @ ?T @ ?U @ [])"
    using C D _ _ lt(1) by (rule starts_below_digit_numeral)
      (use sbT in \<open>simp_all add: starts_below_mono\<close>)
  let ?first = "REPEAT 2000 1"
  have big: "1000 < prefix_digit ?first" by (simp add: prefix_digit_def)
  obtain p1 where p1: "1000 \<le> prefix_digit p1"
    "parse_loop (replicate a CHR ''M'' @ ?H @ ?T @ ?U @ []) ?first 0 =
       parse_loop (?H @ ?T @ ?U @ []) p1 (0 + int a * 1000)"
    using thousands_level [OF sbH big a3, of 0] by auto
  obtain p2 where p2: "100 \<le> prefix_digit p2"
    "parse_loop (?H @ ?T @ ?U @ []) p1 (0 + int a * 1000) =
       parse_loop (?T @ ?U @ []) p2 (0 + int a * 1000 + int b * 100)"
    using digit_level [OF C D M _ lt(1) sbT, of p1 "0 + int a * 1000"] p1(1) a3 by auto
  obtain p3 where p3: "10 \<le> prefix_digit p3"
    "parse_loop (?T @ ?U @ []) p2 (0 + int a * 1000 + int b * 100) =
       parse_loop (?U @ []) p3 (0 + int a * 1000 + int b * 100 + int c * 10)"
    using digit_level [OF X L C1 _ lt(2) sbU, of p2 "0 + int a * 1000 + int b * 100"] p2(1)
      a3 lt
    by auto
  obtain p4 where p4:
    "parse_loop (?U @ []) p3 (0 + int a * 1000 + int b * 100 + int c * 10) =
       parse_loop [] p4 (0 + int a * 1000 + int b * 100 + int c * 10 + int d * 1)"
    using digit_level [OF I V X1 _ lt(3), of "[]" p3
        "0 + int a * 1000 + int b * 100 + int c * 10"] p3(1) a3 lt
    by auto
  have "parse_loop (canonical_roman v) ?first 0 = parse_loop [] p4 (int v)"
    unfolding v canonical_roman_def
    using p1(2) p2(2) p3(2) p4 by (simp add: a_def b_def c_def d_def)
  then have "parse_loop (canonical_roman v) ?first 0 = Some (Inr (int v))"
    by (simp add: parse_loop_end)
  then show ?thesis using assms(1) big by (intro parse_via_loop [of _ ?first]) simp_all
qed

theorem canonical_roundtrip_witness:
  "(1::nat) \<le> 1999 \<and> (1999::nat) \<le> 3999 \<and> canonical_roman 1999 = ''MCMXCIX'' \<and>
   parse_roman_number ''MCMXCIX'' = Some (Inr 1999) \<and>
   (1::nat) \<le> 3888 \<and> (3888::nat) \<le> 3999 \<and> canonical_roman 3888 = ''MMMDCCCLXXXVIII'' \<and>
   parse_roman_number ''MMMDCCCLXXXVIII'' = Some (Inr 3888)"
proof -
  have h1: "(1::nat) \<le> 1999" and h2: "(1999::nat) \<le> 3999" by simp_all
  have k1: "(1::nat) \<le> 3888" and k2: "(3888::nat) \<le> 3999" by simp_all
  have r: "canonical_roman 1999 = ''MCMXCIX''" by code_simp
  have q: "canonical_roman 3888 = ''MMMDCCCLXXXVIII''" by code_simp
  show ?thesis
    using h1 h2 k1 k2 r q canonical_roundtrip [OF h1 h2] canonical_roundtrip [OF k1 k2]
    by simp
qed

end
